theory Spec2Isabelle
  imports Main "HOL-Library.Sublist" "HOL-Library.Multiset"
begin

section \<open>Bandwidth allocation: the four allocators and the comparator\<close>

text \<open>
  The development embeds the algorithmic core of \<^verbatim>\<open>bandwidth_app.py\<close>:
  \<^verbatim>\<open>greedy_allocation\<close>, \<^verbatim>\<open>random_allocation\<close>, \<^verbatim>\<open>dynamic_allocation\<close>,
  \<^verbatim>\<open>backtracking_allocation\<close> and \<^verbatim>\<open>auto_select\<close>.
  Python integers are unbounded, so capacities, demands and totals are \<^typ>\<open>int\<close>;
  Python lists are HOL lists. The interpreter's resource limits (memory, recursion depth)
  are not part of the model.
\<close>

subsection \<open>Python primitives\<close>

text \<open>The exceptions that the list, dictionary and \<^verbatim>\<open>max\<close> operations used by the core can raise.\<close>

datatype py_error = IndexError | KeyError | ValueError

text \<open>Sequencing: an exception raised by the first computation ends the whole one.\<close>

definition py_bind :: "py_error + 'a \<Rightarrow> ('a \<Rightarrow> py_error + 'b) \<Rightarrow> py_error + 'b" where
  "py_bind m f = (case m of Inl e \<Rightarrow> Inl e | Inr a \<Rightarrow> f a)"

lemma py_bind_cong [fundef_cong]:
  "m = m' \<Longrightarrow> (\<And>a. m' = Inr a \<Longrightarrow> f a = f' a) \<Longrightarrow> py_bind m f = py_bind m' f'"
  by (simp add: py_bind_def split: sum.splits)

lemma py_bind_Inr [simp]: "py_bind (Inr a) f = f a"
  by (simp add: py_bind_def)

lemma py_bind_Inl [simp]: "py_bind (Inl e) f = Inl e"
  by (simp add: py_bind_def)

text \<open>A \<^verbatim>\<open>for\<close> loop over a list whose body may raise.\<close>

fun py_for :: "'a list \<Rightarrow> ('s \<Rightarrow> 'a \<Rightarrow> py_error + 's) \<Rightarrow> 's \<Rightarrow> py_error + 's" where
  "py_for [] body s = Inr s"
| "py_for (x # xs) body s = py_bind (body s x) (py_for xs body)"

text \<open>How Python resolves the index \<open>i\<close> of a sequence of length \<open>len\<close>: positions
  \<open>0..len-1\<close> as they are, \<open>-len..-1\<close> counted from the end, anything else raises.\<close>

definition py_index :: "nat \<Rightarrow> int \<Rightarrow> py_error + nat" where
  "py_index len i =
     (if 0 \<le> i \<and> i < int len then Inr (nat i)
      else if - int len \<le> i \<and> i < 0 then Inr (nat (int len + i))
      else Inl IndexError)"

text \<open>\<^verbatim>\<open>xs[i]\<close> and \<^verbatim>\<open>xs[i] = v\<close>.\<close>

definition py_get :: "'a list \<Rightarrow> int \<Rightarrow> py_error + 'a" where
  "py_get xs i = py_bind (py_index (length xs) i) (\<lambda>j. Inr (xs ! j))"

definition py_set :: "'a list \<Rightarrow> int \<Rightarrow> 'a \<Rightarrow> py_error + 'a list" where
  "py_set xs i v = py_bind (py_index (length xs) i) (\<lambda>j. Inr (xs[j := v]))"

text \<open>\<^verbatim>\<open>sorted(demands, reverse=True)\<close>: on integers a stable descending sort is the
  reversed ascending sort, equal elements being indistinguishable.\<close>

definition sorted_desc :: "int list \<Rightarrow> int list" where
  "sorted_desc demands = rev (sort demands)"

subsection \<open>Greedy allocator\<close>

text \<open>The \<^verbatim>\<open>for d in sorted(...)\<close> loop with its \<^verbatim>\<open>break\<close>; the state is
  \<open>(allocation, remaining)\<close>.\<close>

fun greedy_loop :: "int list \<Rightarrow> int list \<Rightarrow> int \<Rightarrow> int list \<times> int" where
  "greedy_loop [] allocation remaining = (allocation, remaining)"
| "greedy_loop (d # ds) allocation remaining =
     (let alloc = min d remaining;
          allocation' = allocation @ [alloc];
          remaining' = remaining - alloc
      in if remaining' \<le> 0 then (allocation', remaining')
         else greedy_loop ds allocation' remaining')"

definition greedy_allocation :: "int \<Rightarrow> int list \<Rightarrow> int list \<times> int" where
  "greedy_allocation total_bandwidth demands =
     (case greedy_loop (sorted_desc demands) [] total_bandwidth of
        (allocation, remaining) \<Rightarrow> (allocation, total_bandwidth - remaining))"

subsection \<open>Random allocator\<close>

text \<open>\<^verbatim>\<open>random.randint(a, b)\<close> draws an integer of \<open>[a, b]\<close> and raises \<^verbatim>\<open>ValueError\<close>
  on an empty range. The generator is a parameter: \<open>raw\<close> is the entropy consumed by the
  call, and \<open>randint_onto\<close> below shows that every integer of the range is drawn for
  some \<open>raw\<close>.\<close>

definition randint :: "int \<Rightarrow> int \<Rightarrow> nat \<Rightarrow> py_error + int" where
  "randint a b raw =
     (if b < a then Inl ValueError else Inr (a + int (raw mod nat (b - a + 1))))"

text \<open>The loop of \<^verbatim>\<open>random_allocation\<close>; \<open>rnd k\<close> is the entropy of the \<open>k\<close>-th draw
  and the demands' values are not read.\<close>

fun random_loop ::
  "(nat \<Rightarrow> nat) \<Rightarrow> nat \<Rightarrow> int list \<Rightarrow> int list \<Rightarrow> int \<Rightarrow> py_error + (int list \<times> int)" where
  "random_loop rnd k [] allocation remaining = Inr (allocation, remaining)"
| "random_loop rnd k (_ # ds) allocation remaining =
     py_bind (randint 0 (if remaining > 0 then remaining else 0) (rnd k)) (\<lambda>alloc.
       let allocation' = allocation @ [alloc];
           remaining' = remaining - alloc
       in if remaining' \<le> 0 then Inr (allocation', remaining')
          else random_loop rnd (Suc k) ds allocation' remaining')"

definition random_allocation ::
  "(nat \<Rightarrow> nat) \<Rightarrow> int \<Rightarrow> int list \<Rightarrow> py_error + (int list \<times> int)" where
  "random_allocation rnd total_bandwidth demands =
     py_bind (random_loop rnd 0 demands [] total_bandwidth) (\<lambda>(allocation, remaining).
       Inr (allocation, total_bandwidth - remaining))"

subsection \<open>Dynamic programming\<close>

text \<open>\<^verbatim>\<open>dp = [[0]*(total_bandwidth+1) for _ in range(n+1)]\<close>: \<open>n + 1\<close> separate rows
  (a non-positive repetition count gives the empty row).\<close>

definition dp_init :: "int \<Rightarrow> nat \<Rightarrow> int list list" where
  "dp_init total_bandwidth n = replicate (n + 1) (replicate (nat (total_bandwidth + 1)) 0)"

text \<open>\<^verbatim>\<open>dp[i][w]\<close> and \<^verbatim>\<open>dp[i][w] = v\<close>. The rows are separate objects, so the
  assignment changes row \<open>i\<close> only.\<close>

definition dp_get :: "int list list \<Rightarrow> int \<Rightarrow> int \<Rightarrow> py_error + int" where
  "dp_get dp i w = py_bind (py_get dp i) (\<lambda>row. py_get row w)"

definition dp_set :: "int list list \<Rightarrow> int \<Rightarrow> int \<Rightarrow> int \<Rightarrow> py_error + int list list" where
  "dp_set dp i w v =
     py_bind (py_get dp i) (\<lambda>row. py_bind (py_set row w v) (\<lambda>row'. py_set dp i row'))"

text \<open>The body of the inner loop, at row \<open>i\<close> and column \<open>w\<close>.\<close>

definition dp_cell :: "int list \<Rightarrow> nat \<Rightarrow> int list list \<Rightarrow> int \<Rightarrow> py_error + int list list" where
  "dp_cell demands i dp w =
     py_bind (py_get demands (int i - 1)) (\<lambda>d.
       if d \<le> w then
         py_bind (dp_get dp (int i - 1) w) (\<lambda>a.
         py_bind (dp_get dp (int i - 1) (w - d)) (\<lambda>b.
         dp_set dp (int i) w (max a (b + d))))
       else
         py_bind (dp_get dp (int i - 1) w) (\<lambda>a. dp_set dp (int i) w a))"

text \<open>\<^verbatim>\<open>for w in range(1, total_bandwidth+1)\<close> and \<^verbatim>\<open>for i in range(1, n+1)\<close>.\<close>

definition dp_row :: "int list \<Rightarrow> int \<Rightarrow> int list list \<Rightarrow> nat \<Rightarrow> py_error + int list list" where
  "dp_row demands total_bandwidth dp i = py_for [1..total_bandwidth] (dp_cell demands i) dp"

definition dp_fill :: "int list \<Rightarrow> int \<Rightarrow> int list list \<Rightarrow> py_error + int list list" where
  "dp_fill demands total_bandwidth dp =
     py_for [1..<length demands + 1] (dp_row demands total_bandwidth) dp"

text \<open>The reconstruction loop \<^verbatim>\<open>for i in range(n, 0, -1)\<close> with its \<^verbatim>\<open>break\<close> and
  \<^verbatim>\<open>continue\<close>; the first equation is the exhausted range, and in the second the loop
  variable is \<open>i = Suc k\<close>.\<close>

fun reconstruct ::
  "int list \<Rightarrow> int list list \<Rightarrow> nat \<Rightarrow> int \<Rightarrow> int \<Rightarrow> int list \<Rightarrow> py_error + int list" where
  "reconstruct demands dp 0 result w allocation = Inr allocation"
| "reconstruct demands dp (Suc k) result w allocation =
     (if result \<le> 0 then Inr allocation
      else py_bind (dp_get dp (int (Suc k) - 1) w) (\<lambda>prev.
        if result = prev then reconstruct demands dp k result w allocation
        else py_bind (py_get demands (int (Suc k) - 1)) (\<lambda>d.
          reconstruct demands dp k (result - d) (w - d) (allocation @ [d]))))"

definition dynamic_allocation :: "int \<Rightarrow> int list \<Rightarrow> py_error + (int list \<times> int)" where
  "dynamic_allocation total_bandwidth demands =
     (let n = length demands in
      py_bind (dp_fill demands total_bandwidth (dp_init total_bandwidth n)) (\<lambda>dp.
      py_bind (dp_get dp (int n) total_bandwidth) (\<lambda>result.
      py_bind (reconstruct demands dp n result total_bandwidth []) (\<lambda>allocation.
      Inr (allocation, sum_list allocation)))))"

subsection \<open>Backtracking\<close>

text \<open>The nested function \<^verbatim>\<open>backtrack(i, current, total)\<close>; its two \<^verbatim>\<open>nonlocal\<close>
  variables are threaded through as the pair \<open>(best_sum, best_alloc)\<close>, and its
  parameter \<^verbatim>\<open>total\<close> is written \<open>tot\<close>.\<close>

function backtrack ::
  "int \<Rightarrow> int list \<Rightarrow> nat \<Rightarrow> int list \<Rightarrow> int \<Rightarrow> int \<times> int list \<Rightarrow> py_error + (int \<times> int list)" where
  "backtrack total_bandwidth demands i current tot best =
     (if tot > total_bandwidth then Inr best
      else let best' = (if tot > fst best then (tot, current) else best) in
        if i = length demands then Inr best'
        else py_bind (py_get demands (int i)) (\<lambda>d.
             py_bind (backtrack total_bandwidth demands (i + 1) (current @ [d]) (tot + d) best')
               (\<lambda>best''. backtrack total_bandwidth demands (i + 1) current tot best'')))"
  by pat_completeness auto
termination
  by (relation "measure (\<lambda>(C, demands, i, current, tot, best). length demands - i)")
     (auto simp: py_get_def py_index_def split: if_splits)

declare backtrack.simps [simp del]

definition backtracking_allocation :: "int \<Rightarrow> int list \<Rightarrow> py_error + (int list \<times> int)" where
  "backtracking_allocation total_bandwidth demands =
     py_bind (backtrack total_bandwidth demands 0 [] 0 (0, [])) (\<lambda>(best_sum, best_alloc).
       Inr (best_alloc, best_sum))"

subsection \<open>Auto-select\<close>

text \<open>A dictionary built by a literal is an association list in insertion order.
  \<^verbatim>\<open>max(results, key=results.get)\<close> walks the keys in that order and keeps the first
  one whose value is greatest; on no keys it raises \<^verbatim>\<open>ValueError\<close>.\<close>

fun max_scan :: "('k \<times> int) list \<Rightarrow> 'k \<times> int \<Rightarrow> 'k \<times> int" where
  "max_scan [] best = best"
| "max_scan ((k, v) # kvs) best = max_scan kvs (if v > snd best then (k, v) else best)"

definition py_max_key :: "('k \<times> int) list \<Rightarrow> py_error + 'k" where
  "py_max_key results =
     (case results of [] \<Rightarrow> Inl ValueError | kv # kvs \<Rightarrow> Inr (fst (max_scan kvs kv)))"

text \<open>\<^verbatim>\<open>results[k]\<close>.\<close>

definition dict_get :: "('k \<times> 'v) list \<Rightarrow> 'k \<Rightarrow> py_error + 'v" where
  "dict_get results k = (case map_of results k of None \<Rightarrow> Inl KeyError | Some v \<Rightarrow> Inr v)"

definition auto_select ::
  "(nat \<Rightarrow> nat) \<Rightarrow> int \<Rightarrow> int list \<Rightarrow> py_error + (string \<times> int \<times> (string \<times> int) list)" where
  "auto_select rnd total_bandwidth demands =
     (let greedy = snd (greedy_allocation total_bandwidth demands) in
      py_bind (dynamic_allocation total_bandwidth demands) (\<lambda>(_, dynamic).
      py_bind (backtracking_allocation total_bandwidth demands) (\<lambda>(_, backtracking).
      py_bind (random_allocation rnd total_bandwidth demands) (\<lambda>(_, random).
        let results = [(''Greedy'', greedy), (''Dynamic Programming'', dynamic),
                       (''Backtracking'', backtracking), (''Random'', random)]
        in py_bind (py_max_key results) (\<lambda>best_algo.
           py_bind (dict_get results best_algo) (\<lambda>best_val.
           Inr (best_algo, best_val, results)))))))"

subsection \<open>Valid inputs\<close>

text \<open>The data model of the specification: a non-negative capacity and positive demands.\<close>

definition valid_input :: "int \<Rightarrow> int list \<Rightarrow> bool" where
  "valid_input C D \<longleftrightarrow> 0 \<le> C \<and> list_all (\<lambda>d. 0 < d) D"

subsection \<open>The optimum, as the specification words it\<close>

text \<open>The sums of the selections of whole demands (subsequences of the demand list)
  that fit the capacity, and the greatest of them.\<close>

definition feasible_sums :: "int \<Rightarrow> int list \<Rightarrow> int set" where
  "feasible_sums C D = sum_list ` {S \<in> set (subseqs D). sum_list S \<le> C}"

definition max_subset_sum :: "int \<Rightarrow> int list \<Rightarrow> int" where
  "max_subset_sum C D = Max (feasible_sums C D)"

subsection \<open>Auxiliary notions for the proofs\<close>

text \<open>The recurrence that the table tabulates, as a function of the demands considered
  so far (latest first) and of the width.\<close>

fun knap :: "int list \<Rightarrow> int \<Rightarrow> int" where
  "knap [] w = 0"
| "knap (d # ds) w = (if d \<le> w then max (knap ds w) (knap ds (w - d) + d) else knap ds w)"

text \<open>The table has its shape, column 0 holds zeros, and rows \<open>0..i\<close> hold the recurrence.\<close>

definition table_ok :: "int list \<Rightarrow> int \<Rightarrow> nat \<Rightarrow> int list list \<Rightarrow> bool" where
  "table_ok D C i dp \<longleftrightarrow>
     length dp = length D + 1 \<and>
     (\<forall>r \<le> length D. length (dp ! r) = nat (C + 1) \<and> dp ! r ! 0 = 0) \<and>
     (\<forall>r \<le> i. \<forall>w. 0 \<le> w \<and> w \<le> C \<longrightarrow> dp ! r ! nat w = knap (rev (take r D)) w)"

text \<open>Inside the inner loop: rows below \<open>i\<close> are done and so are columns \<open>0..k\<close> of row \<open>i\<close>.\<close>

definition row_ok :: "int list \<Rightarrow> int \<Rightarrow> nat \<Rightarrow> nat \<Rightarrow> int list list \<Rightarrow> bool" where
  "row_ok D C i k dp \<longleftrightarrow>
     table_ok D C (i - 1) dp \<and>
     (\<forall>w. 0 \<le> w \<and> w \<le> int k \<longrightarrow> dp ! i ! nat w = knap (rev (take i D)) w)"

text \<open>The totals that the search below \<open>backtrack(i, current, tot)\<close> can still reach:
  \<open>tot\<close> plus a selection of the demands from index \<open>i\<close> on, within the capacity.\<close>

definition completions :: "int \<Rightarrow> int list \<Rightarrow> nat \<Rightarrow> int \<Rightarrow> int set" where
  "completions C D i tot = (\<lambda>S. tot + sum_list S) ` {S \<in> set (subseqs (drop i D)). tot + sum_list S \<le> C}"

section \<open>Properties\<close>

subsection \<open>Greedy\<close>

lemma greedy_loop_remaining:
  "0 \<le> remaining \<Longrightarrow> list_all (\<lambda>d. 0 < d) ds \<Longrightarrow>
   snd (greedy_loop ds allocation remaining) = max 0 (remaining - sum_list ds)"
proof (induction ds arbitrary: allocation remaining)
  case Nil
  then show ?case by simp
next
  case (Cons d ds)
  from Cons.prems have d: "0 < d" and ds: "list_all (\<lambda>d. 0 < d) ds" by simp_all
  have nn: "0 \<le> sum_list ds" using ds by (induction ds) auto
  show ?case
  proof (cases "remaining - min d remaining \<le> 0")
    case True
    then show ?thesis using Cons.prems(1) d nn by (simp add: Let_def min_def split: if_splits)
  next
    case False
    then have "min d remaining = d" by (simp add: min_def split: if_splits)
    with False Cons.IH[of "remaining - d" "allocation @ [d]"] ds show ?thesis
      by (simp add: Let_def algebra_simps)
  qed
qed

lemma sum_list_sorted_desc: "sum_list (sorted_desc D) = sum_list D"
proof -
  have "mset (sorted_desc D) = mset D" by (simp add: sorted_desc_def)
  then show ?thesis by (metis sum_mset_sum_list)
qed

lemma list_all_sorted_desc: "list_all P (sorted_desc D) = list_all P D"
  by (simp add: sorted_desc_def list_all_iff)

lemma greedy_total: 
  assumes "valid_input C D"
  shows "snd (greedy_allocation C D) = min C (sum_list D)"
proof -
  from assms have C: "0 \<le> C" and D: "list_all (\<lambda>d. 0 < d) (sorted_desc D)"
    by (simp_all add: valid_input_def list_all_sorted_desc)
  have "snd (greedy_loop (sorted_desc D) [] C) = max 0 (C - sum_list D)"
    using greedy_loop_remaining[OF C D] by (simp add: sum_list_sorted_desc)
  then show ?thesis
    by (auto simp: greedy_allocation_def split: prod.splits)
qed


text \<open>
  Claim C9. For a non-negative capacity \<open>C\<close> and positive demands \<open>D\<close>, the total achieved
  by \<open>greedy_allocation\<close> is exactly \<open>min C (sum D)\<close>: partial grants exhaust either the
  capacity or the demands.
\<close>

theorem greedy_total_is_min:
  "valid_input C D \<Longrightarrow> snd (greedy_allocation C D) = min C (sum_list D)"
  by (rule greedy_total)

theorem greedy_total_is_min_witness:
  "valid_input 100 [50, 40, 30, 60, 20] \<and>
   snd (greedy_allocation 100 [50, 40, 30, 60, 20]) = min 100 (sum_list [50, 40, 30, 60, 20])"
proof -
  have v: "valid_input 100 [50, 40, 30, 60, 20]" by (simp add: valid_input_def)
  from v greedy_total_is_min[OF v] show ?thesis by simp
qed

subsection \<open>The recurrence computes the optimum\<close>

lemma knap_nonneg: "0 \<le> knap ds w"
  by (induction ds arbitrary: w) (auto simp: le_max_iff_disj)

lemma knap_achieved:
  "0 \<le> w \<Longrightarrow> \<exists>S. subseq S ds \<and> sum_list S = knap ds w \<and> knap ds w \<le> w"
proof (induction ds arbitrary: w)
  case Nil
  then show ?case by (auto intro: exI[of _ "[]"])
next
  case (Cons d ds)
  from Cons.IH[OF Cons.prems] obtain S1 where
    S1: "subseq S1 ds" "sum_list S1 = knap ds w" "knap ds w \<le> w" by blast
  show ?case
  proof (cases "d \<le> w \<and> knap ds w < knap ds (w - d) + d")
    case True
    then have "0 \<le> w - d" by simp
    from Cons.IH[OF this] obtain S2 where
      S2: "subseq S2 ds" "sum_list S2 = knap ds (w - d)" "knap ds (w - d) \<le> w - d" by blast
    have "subseq (d # S2) (d # ds)" using S2(1) by simp
    moreover have "sum_list (d # S2) = knap (d # ds) w" using True S2(2) by simp
    moreover have "knap (d # ds) w \<le> w" using True S2(3) by simp
    ultimately show ?thesis by blast
  next
    case False
    then have "knap (d # ds) w = knap ds w" by auto
    moreover have "subseq S1 (d # ds)" using S1(1) by (rule list_emb_Cons)
    ultimately show ?thesis using S1 by metis
  qed
qed

lemma sum_list_pos_nonneg: "list_all (\<lambda>d. 0 < d) ds \<Longrightarrow> (0::int) \<le> sum_list ds"
  by (induction ds) auto

lemma list_all_subseq: "subseq S ds \<Longrightarrow> list_all P ds \<Longrightarrow> list_all P S"
  using list_emb_set[of "(=)" S ds] by (auto simp: list_all_iff)

lemma knap_upper:
  "list_all (\<lambda>d. 0 < d) ds \<Longrightarrow> subseq S ds \<Longrightarrow> sum_list S \<le> w \<Longrightarrow> sum_list S \<le> knap ds w"
proof (induction ds arbitrary: S w)
  case Nil
  then show ?case by (auto dest: list_emb_Nil2)
next
  case (Cons d ds)
  from Cons.prems(1) have pos: "list_all (\<lambda>d. 0 < d) ds" and d: "0 < d" by simp_all
  have mono: "knap ds w \<le> knap (d # ds) w" by simp
  show ?case
  proof (cases "subseq S ds")
    case True
    from Cons.IH[OF pos True Cons.prems(3)] mono show ?thesis by linarith
  next
    case False
    with Cons.prems(2) obtain S' where S: "S = d # S'" "subseq S' ds"
      by (cases S) (auto split: if_splits)
    have "0 \<le> sum_list S'" using list_all_subseq[OF S(2) pos] by (rule sum_list_pos_nonneg)
    with S Cons.prems(3) have dw: "d \<le> w" and "sum_list S' \<le> w - d" by simp_all
    from Cons.IH[OF pos S(2) this(2)] have "sum_list S' \<le> knap ds (w - d)" .
    with dw S(1) show ?thesis by simp
  qed
qed

lemma finite_feasible_sums: "finite (feasible_sums C D)"
  unfolding feasible_sums_def
  by (rule finite_imageI) (rule finite_subset[of _ "set (subseqs D)"], auto)

lemma knap_is_max:
  assumes "0 \<le> C" "list_all (\<lambda>d. 0 < d) D"
  shows "knap D C = max_subset_sum C D"
proof -
  from knap_achieved[OF assms(1), of D] obtain S where
    S: "subseq S D" "sum_list S = knap D C" "knap D C \<le> C" by blast
  have "Max (feasible_sums C D) = knap D C"
  proof (rule Max_eqI)
    show "finite (feasible_sums C D)" by (rule finite_feasible_sums)
    show "knap D C \<in> feasible_sums C D"
      using S by (force simp: feasible_sums_def)
    fix y assume "y \<in> feasible_sums C D"
    then show "y \<le> knap D C"
      using knap_upper[OF assms(2)] by (auto simp: feasible_sums_def)
  qed
  then show ?thesis by (simp add: max_subset_sum_def)
qed


lemma subseq_rev: "subseq xs ys \<Longrightarrow> subseq (rev xs) (rev ys)"
proof (induction rule: list_emb.induct)
  case (list_emb_Nil ys)
  then show ?case by simp
next
  case (list_emb_Cons xs ys y)
  then show ?case by (simp add: subseq_rev_drop_many)
next
  case (list_emb_Cons2 x y xs ys)
  then show ?case by simp
qed

lemma feasible_sums_rev: "feasible_sums C (rev D) = feasible_sums C D"
proof -
  have "feasible_sums C ys \<subseteq> feasible_sums C (rev ys)" for ys
  proof
    fix t assume "t \<in> feasible_sums C ys"
    then obtain S where "subseq S ys" "sum_list S \<le> C" "t = sum_list S"
      by (auto simp: feasible_sums_def)
    then have "subseq (rev S) (rev ys)" "sum_list (rev S) \<le> C" "t = sum_list (rev S)"
      by (simp_all add: subseq_rev)
    then show "t \<in> feasible_sums C (rev ys)"
      unfolding feasible_sums_def by (intro image_eqI[of _ _ "rev S"]) simp_all
  qed
  from this[of D] this[of "rev D"] show ?thesis by auto
qed

lemma knap_rev_is_max:
  assumes "valid_input C D"
  shows "knap (rev D) C = max_subset_sum C D"
proof -
  from assms have "0 \<le> C" "list_all (\<lambda>d. 0 < d) (rev D)" by (simp_all add: valid_input_def)
  from knap_is_max[OF this] show ?thesis by (simp add: max_subset_sum_def feasible_sums_rev)
qed

subsection \<open>The table and its reconstruction\<close>

lemma py_get_in_range:
  "0 \<le> i \<Longrightarrow> i < int (length xs) \<Longrightarrow> py_get xs i = Inr (xs ! nat i)"
  by (simp add: py_get_def py_index_def)

lemma py_set_in_range:
  "0 \<le> i \<Longrightarrow> i < int (length xs) \<Longrightarrow> py_set xs i v = Inr (xs[nat i := v])"
  by (simp add: py_set_def py_index_def)

lemma dp_get_in_range:
  "0 \<le> i \<Longrightarrow> i < int (length dp) \<Longrightarrow> 0 \<le> w \<Longrightarrow> w < int (length (dp ! nat i)) \<Longrightarrow>
   dp_get dp i w = Inr (dp ! nat i ! nat w)"
  by (simp add: dp_get_def py_get_in_range)

lemma dp_set_in_range:
  "0 \<le> i \<Longrightarrow> i < int (length dp) \<Longrightarrow> 0 \<le> w \<Longrightarrow> w < int (length (dp ! nat i)) \<Longrightarrow>
   dp_set dp i w v = Inr (dp[nat i := (dp ! nat i)[nat w := v]])"
  by (simp add: dp_set_def py_get_in_range py_set_in_range)

lemma py_for_invariant:
  assumes "P 0 s"
    and "\<And>k s. k < length xs \<Longrightarrow> P k s \<Longrightarrow> \<exists>s'. body s (xs ! k) = Inr s' \<and> P (Suc k) s'"
  shows "\<exists>s'. py_for xs body s = Inr s' \<and> P (length xs) s'"
  using assms
proof (induction xs arbitrary: P s)
  case Nil
  then show ?case by simp
next
  case (Cons x xs)
  from Cons.prems(2)[of 0 s] Cons.prems(1) obtain s1 where
    s1: "body s x = Inr s1" "P (Suc 0) s1" by auto
  have "\<exists>s'. py_for xs body s1 = Inr s' \<and> P (Suc (length xs)) s'"
  proof (rule Cons.IH[of "\<lambda>k. P (Suc k)"])
    show "P (Suc 0) s1" by (rule s1)
    fix k t assume "k < length xs" "P (Suc k) t"
    with Cons.prems(2)[of "Suc k" t] show "\<exists>s'. body t (xs ! k) = Inr s' \<and> P (Suc (Suc k)) s'"
      by simp
  qed
  with s1 show ?case by simp
qed

lemma knap_zero: "list_all (\<lambda>d. 0 < d) ds \<Longrightarrow> knap ds 0 = 0"
  by (induction ds) auto

lemma dp_init_nth: "r \<le> n \<Longrightarrow> dp_init C n ! r = replicate (nat (C + 1)) 0"
  unfolding dp_init_def by (intro nth_replicate) simp

lemma table_ok_init:
  assumes "valid_input C D"
  shows "table_ok D C 0 (dp_init C (length D))"
proof -
  from assms have C: "0 \<le> C" by (simp add: valid_input_def)
  have "length (dp_init C (length D)) = length D + 1" by (simp add: dp_init_def)
  moreover have "length (dp_init C (length D) ! r) = nat (C + 1) \<and> dp_init C (length D) ! r ! 0 = 0"
    if "r \<le> length D" for r
    using that C by (simp add: dp_init_nth)
  moreover have "dp_init C (length D) ! 0 ! nat w = knap (rev (take 0 D)) w"
    if "0 \<le> w" "w \<le> C" for w
    using that by (simp add: dp_init_nth)
  ultimately show ?thesis by (simp add: table_ok_def)
qed

lemma rev_take_Suc: "k < length D \<Longrightarrow> rev (take (Suc k) D) = D ! k # rev (take k D)"
  by (simp add: take_Suc_conv_app_nth)

lemma dp_cell_step:
  assumes v: "valid_input C D" and i: "1 \<le> i" "i \<le> length D"
    and w: "1 \<le> w" "w \<le> C" and ok: "row_ok D C i (nat w - 1) dp"
  shows "\<exists>dp'. dp_cell D i dp w = Inr dp' \<and> row_ok D C i (nat w) dp'"
proof -
  obtain k where k: "i = Suc k" using i(1) by (cases i) auto
  from ok have t: "table_ok D C k dp" by (simp add: row_ok_def k)
  let ?d = "D ! k"
  let ?ds = "rev (take k D)"
  from v i k have d: "0 < ?d" by (simp add: valid_input_def list_all_length)
  from t have len: "length dp = length D + 1"
    and rows: "\<And>r. r \<le> length D \<Longrightarrow> length (dp ! r) = nat (C + 1)"
    and zero: "\<And>r. r \<le> length D \<Longrightarrow> dp ! r ! 0 = 0"
    and prev: "\<And>x. 0 \<le> x \<Longrightarrow> x \<le> C \<Longrightarrow> dp ! k ! nat x = knap ?ds x"
    by (simp_all add: table_ok_def)
  have gd: "py_get D (int i - 1) = Inr ?d"
    using i k by (simp add: py_get_in_range)
  have ga: "dp_get dp (int i - 1) x = Inr (knap ?ds x)" if "0 \<le> x" "x \<le> C" for x
    using that i k len rows[of k] prev[of x] by (simp add: dp_get_in_range)
  let ?v = "knap (rev (take i D)) w"
  have kn: "?v = (if ?d \<le> w then max (knap ?ds w) (knap ?ds (w - ?d) + ?d) else knap ?ds w)"
    using i k by (simp add: rev_take_Suc)
  have st: "dp_set dp (int i) w x = Inr (dp[i := (dp ! i)[nat w := x]])" for x
    using i w len rows[of i] dp_set_in_range[of "int i" dp w x] by simp
  have cell: "dp_cell D i dp w = Inr (dp[i := (dp ! i)[nat w := ?v]])"
  proof (cases "?d \<le> w")
    case True
    with d w have "0 \<le> w - ?d" "w - ?d \<le> C" by simp_all
    with True w show ?thesis
      by (simp add: dp_cell_def gd ga st kn)
  next
    case False
    with w show ?thesis
      by (simp add: dp_cell_def gd ga st kn)
  qed
  let ?dp' = "dp[i := (dp ! i)[nat w := ?v]]"
  have "table_ok D C k ?dp'"
    unfolding table_ok_def
  proof (intro conjI allI impI)
    show "length ?dp' = length D + 1" using len by simp
  next
    fix r assume "r \<le> length D"
    then show "length (?dp' ! r) = nat (C + 1)"
      using len rows[of r] by (cases "r = i") simp_all
  next
    fix r assume "r \<le> length D"
    then show "?dp' ! r ! 0 = 0"
      using len zero[of r] w by (cases "r = i") simp_all
  next
    fix r x assume "r \<le> k" "0 \<le> x \<and> x \<le> C"
    then show "?dp' ! r ! nat x = knap (rev (take r D)) x"
      using t k by (simp add: table_ok_def)
  qed
  moreover have "?dp' ! i ! nat x = knap (rev (take i D)) x" if "0 \<le> x" "x \<le> int (nat w)" for x
  proof (cases "x = w")
    case True
    then show ?thesis using i len rows[of i] w by simp
  next
    case False
    with that w have "x \<le> int (nat w - 1)" by simp
    with ok that(1) have "dp ! i ! nat x = knap (rev (take i D)) x" by (simp add: row_ok_def)
    moreover have "nat x \<noteq> nat w" using False that w by simp
    ultimately show ?thesis using i len by simp
  qed
  ultimately have "row_ok D C i (nat w) ?dp'" by (simp add: row_ok_def k)
  with cell show ?thesis by blast
qed


lemma dp_row_step:
  assumes v: "valid_input C D" and i: "1 \<le> i" "i \<le> length D"
    and ok: "table_ok D C (i - 1) dp"
  shows "\<exists>dp'. dp_row D C dp i = Inr dp' \<and> table_ok D C i dp'"
proof -
  from v have C: "0 \<le> C" and pos: "list_all (\<lambda>d. 0 < d) D" by (simp_all add: valid_input_def)
  have z: "dp ! i ! 0 = 0" using ok i by (simp add: table_ok_def)
  have "knap (rev (take i D)) 0 = 0"
    by (rule knap_zero) (use pos in \<open>auto simp: list_all_iff dest: in_set_takeD\<close>)
  moreover have "w = 0" if "0 \<le> w \<and> w \<le> int 0" for w :: int using that by simp
  ultimately have start: "row_ok D C i 0 dp" using z ok by (auto simp: row_ok_def)
  have "\<exists>dp'. py_for [1..C] (dp_cell D i) dp = Inr dp' \<and> row_ok D C i (length [1..C]) dp'"
  proof (rule py_for_invariant[where P = "row_ok D C i"])
    show "row_ok D C i 0 dp" by (rule start)
    fix k s assume k: "k < length [1..C]" and s: "row_ok D C i k s"
    from k have w: "1 \<le> 1 + int k" "1 + int k \<le> C" by simp_all
    have "[1..C] ! k = 1 + int k" using w by simp
    moreover have "nat (1 + int k) = Suc k" "nat (1 + int k) - 1 = k" by simp_all
    ultimately show "\<exists>s'. dp_cell D i s ([1..C] ! k) = Inr s' \<and> row_ok D C i (Suc k) s'"
      using dp_cell_step[OF v i w] s by simp
  qed
  then obtain dp' where dp': "dp_row D C dp i = Inr dp'" "row_ok D C i (nat C) dp'"
    using C by (auto simp: dp_row_def)
  have "table_ok D C i dp'"
    unfolding table_ok_def
  proof (intro conjI allI impI)
    show "length dp' = length D + 1" using dp'(2) by (simp add: row_ok_def table_ok_def)
  next
    fix r assume "r \<le> length D"
    then show "length (dp' ! r) = nat (C + 1)" "dp' ! r ! 0 = 0"
      using dp'(2) by (simp_all add: row_ok_def table_ok_def)
  next
    fix r w assume r: "r \<le> i" and w: "0 \<le> w \<and> w \<le> C"
    show "dp' ! r ! nat w = knap (rev (take r D)) w"
    proof (cases "r = i")
      case True
      with dp'(2) w C show ?thesis by (simp add: row_ok_def)
    next
      case False
      with r have "r \<le> i - 1" by simp
      with dp'(2) w show ?thesis by (simp add: row_ok_def table_ok_def)
    qed
  qed
  with dp'(1) show ?thesis by blast
qed

lemma dp_fill_correct:
  assumes v: "valid_input C D"
  shows "\<exists>dp. dp_fill D C (dp_init C (length D)) = Inr dp \<and> table_ok D C (length D) dp"
proof -
  have "\<exists>dp. py_for [1..<length D + 1] (dp_row D C) (dp_init C (length D)) = Inr dp \<and>
          table_ok D C (length [1..<length D + 1]) dp"
  proof (rule py_for_invariant[where P = "table_ok D C"])
    show "table_ok D C 0 (dp_init C (length D))" by (rule table_ok_init[OF v])
    fix k s assume k: "k < length [1..<length D + 1]" and s: "table_ok D C k s"
    then have "[1..<length D + 1] ! k = Suc k" "1 \<le> Suc k" "Suc k \<le> length D"
      by (simp_all add: nth_upt del: upt_Suc)
    with dp_row_step[OF v, of "Suc k" s] s
    show "\<exists>s'. dp_row D C s ([1..<length D + 1] ! k) = Inr s' \<and> table_ok D C (Suc k) s'"
      by simp
  qed
  moreover have "length [1..<length D + 1] = length D" by (simp only: length_upt add_diff_cancel_right')
  ultimately show ?thesis unfolding dp_fill_def by metis
qed

lemma reconstruct_correct:
  assumes v: "valid_input C D" and ok: "table_ok D C (length D) dp"
  shows "k \<le> length D \<Longrightarrow> 0 \<le> w \<Longrightarrow> w \<le> C \<Longrightarrow> result = knap (rev (take k D)) w \<Longrightarrow>
    \<exists>sel. reconstruct D dp k result w allocation = Inr (allocation @ sel) \<and>
          sum_list sel = result \<and> subseq (rev sel) (take k D)"
proof (induction k arbitrary: result w allocation)
  case 0
  then show ?case by simp
next
  case (Suc k)
  let ?d = "D ! k"
  let ?ds = "rev (take k D)"
  from Suc.prems(1) have kl: "k < length D" by simp
  from v kl have d: "0 < ?d" by (simp add: valid_input_def list_all_length)
  have tk: "take (Suc k) D = take k D @ [?d]" using kl by (simp add: take_Suc_conv_app_nth)
  have res: "result = (if ?d \<le> w then max (knap ?ds w) (knap ?ds (w - ?d) + ?d) else knap ?ds w)"
    using Suc.prems(4) kl by (simp add: rev_take_Suc)
  show ?case
  proof (cases "result \<le> 0")
    case True
    with knap_nonneg[of "rev (take (Suc k) D)" w] Suc.prems(4) have "result = 0" by simp
    then show ?thesis by simp
  next
    case False
    have prev: "dp_get dp (int (Suc k) - 1) w = Inr (knap ?ds w)"
      using ok kl Suc.prems(2,3) dp_get_in_range[of "int k" dp w]
      by (simp add: table_ok_def)
    show ?thesis
    proof (cases "result = knap ?ds w")
      case True
      from Suc.IH[of w result allocation] kl Suc.prems(2,3) True obtain sel where
        sel: "reconstruct D dp k result w allocation = Inr (allocation @ sel)"
          "sum_list sel = result" "subseq (rev sel) (take k D)" by auto
      from sel(3) have "subseq (rev sel) (take (Suc k) D)"
        unfolding tk by (rule subseq_rev_drop_many)
      with sel False prev True show ?thesis by simp
    next
      case neq: False
      with res have dw: "?d \<le> w" and r: "result - ?d = knap ?ds (w - ?d)"
        by (auto simp: max_def split: if_splits)
      from dw d Suc.prems(2,3) have w': "0 \<le> w - ?d" "w - ?d \<le> C" by simp_all
      have gd: "py_get D (int (Suc k) - 1) = Inr ?d" using kl by (simp add: py_get_in_range)
      from Suc.IH[of "w - ?d" "result - ?d" "allocation @ [?d]"] kl w' r obtain sel where
        sel: "reconstruct D dp k (result - ?d) (w - ?d) (allocation @ [?d]) = Inr ((allocation @ [?d]) @ sel)"
          "sum_list sel = result - ?d" "subseq (rev sel) (take k D)" by auto
      have "subseq (rev (?d # sel)) (take (Suc k) D)"
        unfolding tk using sel(3) by simp
      moreover have "sum_list (?d # sel) = result" using sel(2) by simp
      moreover have "reconstruct D dp (Suc k) result w allocation = Inr (allocation @ (?d # sel))"
        using False neq prev gd sel(1) by simp
      ultimately show ?thesis by blast
    qed
  qed
qed

lemma dynamic_allocation_correct:
  assumes v: "valid_input C D"
  shows "\<exists>allocation. dynamic_allocation C D = Inr (allocation, knap (rev D) C) \<and>
           sum_list allocation = knap (rev D) C \<and> subseq (rev allocation) D"
proof -
  from v have C: "0 \<le> C" by (simp add: valid_input_def)
  from dp_fill_correct[OF v] obtain dp where
    dp: "dp_fill D C (dp_init C (length D)) = Inr dp" "table_ok D C (length D) dp" by blast
  have res: "dp_get dp (int (length D)) C = Inr (knap (rev D) C)"
    using dp(2) C dp_get_in_range[of "int (length D)" dp C] by (simp add: table_ok_def)
  from reconstruct_correct[OF v dp(2), of "length D" C "knap (rev D) C" "[]"] C
  obtain sel where sel: "reconstruct D dp (length D) (knap (rev D) C) C [] = Inr sel"
    "sum_list sel = knap (rev D) C" "subseq (rev sel) D" by auto
  show ?thesis
    using dp(1) res sel by (simp add: dynamic_allocation_def)
qed

subsection \<open>Random\<close>

lemma randint_range:
  "a \<le> b \<Longrightarrow> \<exists>v. randint a b raw = Inr v \<and> a \<le> v \<and> v \<le> b"
proof -
  assume ab: "a \<le> b"
  then have "0 < nat (b - a + 1)" by simp
  then have "raw mod nat (b - a + 1) < nat (b - a + 1)" by (rule mod_less_divisor)
  then have "int (raw mod nat (b - a + 1)) \<le> b - a" using ab by linarith
  with ab show ?thesis by (simp add: randint_def)
qed

lemma randint_onto:
  "a \<le> v \<Longrightarrow> v \<le> b \<Longrightarrow> randint a b (nat (v - a)) = Inr v"
  by (simp add: randint_def)

lemma random_loop_correct:
  "\<exists>sel r. random_loop rnd k ds allocation remaining = Inr (allocation @ sel, r) \<and>
      r \<le> remaining \<and> (0 \<le> remaining \<longrightarrow> 0 \<le> r) \<and> (remaining \<le> 0 \<longrightarrow> r = remaining) \<and>
      sum_list sel = remaining - r \<and> list_all (\<lambda>a. 0 \<le> a) sel"
proof (induction ds arbitrary: k allocation remaining)
  case Nil
  then show ?case by simp
next
  case (Cons d ds)
  let ?hi = "if remaining > 0 then remaining else 0"
  have "0 \<le> ?hi" by simp
  from randint_range[OF this, of "rnd k"] obtain alloc where
    alloc: "randint 0 ?hi (rnd k) = Inr alloc" "0 \<le> alloc" "alloc \<le> ?hi" by blast
  show ?case
  proof (cases "remaining - alloc \<le> 0")
    case True
    have "random_loop rnd k (d # ds) allocation remaining = Inr (allocation @ [alloc], remaining - alloc)"
      using alloc(1) True by (simp add: Let_def)
    moreover have "0 \<le> remaining \<longrightarrow> 0 \<le> remaining - alloc"
      using alloc(3) by (simp split: if_splits)
    moreover have "remaining \<le> 0 \<longrightarrow> remaining - alloc = remaining"
      using alloc(2,3) by (simp split: if_splits)
    ultimately show ?thesis using alloc(2) by auto
  next
    case False
    from Cons.IH[of "Suc k" "allocation @ [alloc]" "remaining - alloc"] obtain sel r where
      sel: "random_loop rnd (Suc k) ds (allocation @ [alloc]) (remaining - alloc) =
              Inr ((allocation @ [alloc]) @ sel, r)"
        "r \<le> remaining - alloc" "0 \<le> remaining - alloc \<longrightarrow> 0 \<le> r"
        "sum_list sel = remaining - alloc - r" "list_all (\<lambda>a. 0 \<le> a) sel" by blast
    have "random_loop rnd k (d # ds) allocation remaining = Inr (allocation @ (alloc # sel), r)"
      using alloc(1) False sel(1) by (simp add: Let_def)
    moreover have "r \<le> remaining" using sel(2) alloc(2) by simp
    moreover have "0 \<le> r" using sel(3) False by simp
    moreover have "\<not> remaining \<le> 0" using False alloc(2) by simp
    moreover have "sum_list (alloc # sel) = remaining - r" using sel(4) by simp
    moreover have "list_all (\<lambda>a. 0 \<le> a) (alloc # sel)" using sel(5) alloc(2) by simp
    ultimately show ?thesis by blast
  qed
qed

lemma random_allocation_correct:
  "\<exists>allocation t. random_allocation rnd C D = Inr (allocation, t) \<and>
     sum_list allocation = t \<and> (0 \<le> C \<longrightarrow> t \<le> C) \<and> (C < 0 \<longrightarrow> t = 0)"
proof -
  from random_loop_correct[of rnd 0 D "[]" C] obtain sel r where
    sel: "random_loop rnd 0 D [] C = Inr (sel, r)" "r \<le> C" "0 \<le> C \<longrightarrow> 0 \<le> r"
      "C \<le> 0 \<longrightarrow> r = C" "sum_list sel = C - r" by auto
  have "random_allocation rnd C D = Inr (sel, C - r)"
    using sel(1) by (simp add: random_allocation_def)
  with sel show ?thesis by auto
qed



subsection \<open>Backtracking\<close>

lemma completions_pruned:
  assumes "list_all (\<lambda>d. 0 < d) D" "C < tot"
  shows "completions C D i tot = {}"
proof -
  have "0 \<le> sum_list S" if "subseq S (drop i D)" for S
  proof -
    have "list_all (\<lambda>d. 0 < d) (drop i D)"
      using assms(1) by (auto simp: list_all_iff dest: in_set_dropD)
    from list_all_subseq[OF that this] show ?thesis by (rule sum_list_pos_nonneg)
  qed
  with assms(2) show ?thesis by (fastforce simp: completions_def)
qed

lemma completions_end: "tot \<le> C \<Longrightarrow> completions C D (length D) tot = {tot}"
  by (auto simp: completions_def)

lemma subseq_Cons_right:
  "subseq S (d # xs) \<longleftrightarrow> subseq S xs \<or> (\<exists>S'. S = d # S' \<and> subseq S' xs)"
  by (cases S) (auto dest: subseq_Cons')

lemma completions_iff:
  "x \<in> completions C D i tot \<longleftrightarrow> (\<exists>S. subseq S (drop i D) \<and> x = tot + sum_list S \<and> x \<le> C)"
  by (auto simp: completions_def)

lemma completions_step:
  assumes "i < length D"
  shows "completions C D i tot =
         completions C D (i + 1) (tot + D ! i) \<union> completions C D (i + 1) tot"
proof -
  have dr: "drop i D = D ! i # drop (i + 1) D" using assms by (simp add: Cons_nth_drop_Suc)
  show ?thesis
  proof (intro set_eqI iffI)
    fix x assume "x \<in> completions C D i tot"
    then obtain S where S: "subseq S (D ! i # drop (i + 1) D)" "x = tot + sum_list S" "x \<le> C"
      unfolding completions_iff dr by blast
    from S(1) consider "subseq S (drop (i + 1) D)"
      | S' where "S = D ! i # S'" "subseq S' (drop (i + 1) D)"
      unfolding subseq_Cons_right by blast
    then show "x \<in> completions C D (i + 1) (tot + D ! i) \<union> completions C D (i + 1) tot"
    proof cases
      case 1
      with S show ?thesis unfolding Un_iff completions_iff by blast
    next
      case 2
      with S have "x = (tot + D ! i) + sum_list S'" by simp
      with 2 S(3) show ?thesis unfolding Un_iff completions_iff by blast
    qed
  next
    fix x assume "x \<in> completions C D (i + 1) (tot + D ! i) \<union> completions C D (i + 1) tot"
    then consider S where "subseq S (drop (i + 1) D)" "x = (tot + D ! i) + sum_list S" "x \<le> C"
      | S where "subseq S (drop (i + 1) D)" "x = tot + sum_list S" "x \<le> C"
      unfolding Un_iff completions_iff by blast
    then show "x \<in> completions C D i tot"
    proof cases
      case 1
      then have "subseq (D ! i # S) (drop i D)" "x = tot + sum_list (D ! i # S)"
        unfolding dr by simp_all
      with 1(3) show ?thesis unfolding completions_iff by blast
    next
      case 2
      then have "subseq S (drop i D)" unfolding dr by (simp add: subseq_Cons_right)
      with 2 show ?thesis unfolding completions_iff by blast
    qed
  qed
qed

lemma completions_self: "tot \<le> C \<Longrightarrow> tot \<in> completions C D i tot"
  by (auto simp: completions_def image_iff intro: exI[of _ "[]"])

lemma backtrack_value:
  assumes pos: "list_all (\<lambda>d. 0 < d) D"
  shows "i \<le> length D \<Longrightarrow>
    \<exists>r ba'. backtrack C D i current tot (bs, ba) = Inr (r, ba') \<and> bs \<le> r \<and>
       (r = bs \<or> r \<in> completions C D i tot) \<and> (\<forall>x \<in> completions C D i tot. x \<le> r)"
proof (induction "length D - i" arbitrary: i current tot bs ba)
  case 0
  then have i: "i = length D" by simp
  show ?case
  proof (cases "C < tot")
    case True
    then show ?thesis
      by (subst backtrack.simps) (simp add: completions_pruned[OF pos])
  next
    case False
    then show ?thesis using i
      by (subst backtrack.simps) (auto simp: completions_end)
  qed
next
  case (Suc n)
  then have i: "i < length D" and n: "n = length D - (i + 1)" "i + 1 \<le> length D" by simp_all
  show ?case
  proof (cases "C < tot")
    case True
    then show ?thesis
      by (subst backtrack.simps) (simp add: completions_pruned[OF pos])
  next
    case False
    let ?d = "D ! i"
    obtain b1 a1 where best': "(if tot > bs then (tot, current) else (bs, ba)) = (b1, a1)"
      by (cases "tot > bs") simp_all
    then have b1: "b1 = max bs tot" by (auto split: if_splits)
    from Suc.hyps(1)[OF n, of "current @ [?d]" "tot + ?d" b1 a1] obtain r1 ba1 where
      r1: "backtrack C D (i + 1) (current @ [?d]) (tot + ?d) (b1, a1) = Inr (r1, ba1)"
        "b1 \<le> r1" "r1 = b1 \<or> r1 \<in> completions C D (i + 1) (tot + ?d)"
        "\<forall>x \<in> completions C D (i + 1) (tot + ?d). x \<le> r1" by blast
    from Suc.hyps(1)[OF n, of current tot r1 ba1] obtain r2 ba2 where
      r2: "backtrack C D (i + 1) current tot (r1, ba1) = Inr (r2, ba2)"
        "r1 \<le> r2" "r2 = r1 \<or> r2 \<in> completions C D (i + 1) tot"
        "\<forall>x \<in> completions C D (i + 1) tot. x \<le> r2" by blast
    have run: "backtrack C D i current tot (bs, ba) = Inr (r2, ba2)"
      using False i best' r1(1) r2(1)
      by (subst backtrack.simps) (simp add: py_get_in_range)
    have self: "tot \<in> completions C D (i + 1) tot" using False by (simp add: completions_self)
    have "bs \<le> r2" using b1 r1(2) r2(2) by simp
    moreover have "r2 = bs \<or> r2 \<in> completions C D i tot"
      using r1(3) r2(3) b1 self unfolding completions_step[OF i] by (auto simp: max_def split: if_splits)
    moreover have "\<forall>x \<in> completions C D i tot. x \<le> r2"
      using r1(4) r2(2,4) unfolding completions_step[OF i] by fastforce
    ultimately show ?thesis using run by blast
  qed
qed

lemma backtrack_selection:
  "i \<le> length D \<Longrightarrow> subseq current (take i D) \<Longrightarrow> sum_list current = tot \<Longrightarrow>
   subseq ba D \<Longrightarrow> sum_list ba = bs \<Longrightarrow>
   \<exists>r ba'. backtrack C D i current tot (bs, ba) = Inr (r, ba') \<and> subseq ba' D \<and> sum_list ba' = r"
proof (induction "length D - i" arbitrary: i current tot bs ba)
  case 0
  then have i: "i = length D" by simp
  with 0 show ?case
    by (subst backtrack.simps) auto
next
  case (Suc n)
  then have i: "i < length D" and n: "n = length D - (i + 1)" "i + 1 \<le> length D" by simp_all
  let ?d = "D ! i"
  have tk: "take (i + 1) D = take i D @ [?d]" using i by (simp add: take_Suc_conv_app_nth)
  have tk': "take (Suc i) D = take i D @ [?d]" using tk by simp
  have cur_D: "subseq current D"
    using Suc.prems(2) by (metis append_take_drop_id subseq_rev_drop_many)
  show ?case
  proof (cases "C < tot")
    case True
    with Suc.prems show ?thesis
      by (subst backtrack.simps) simp
  next
    case False
    obtain b1 a1 where best': "(if tot > bs then (tot, current) else (bs, ba)) = (b1, a1)"
      by (cases "tot > bs") simp_all
    then have inv1: "subseq a1 D" "sum_list a1 = b1"
      using Suc.prems(3,4,5) cur_D by (auto split: if_splits)
    have c1: "subseq (current @ [?d]) (take (i + 1) D)" "sum_list (current @ [?d]) = tot + ?d"
      using Suc.prems(2,3) by (simp_all add: tk')
    from Suc.hyps(1)[OF n c1 inv1] obtain r1 ba1 where
      r1: "backtrack C D (i + 1) (current @ [?d]) (tot + ?d) (b1, a1) = Inr (r1, ba1)"
        "subseq ba1 D" "sum_list ba1 = r1" by blast
    have c2: "subseq current (take (i + 1) D)"
      unfolding tk using Suc.prems(2) by (rule subseq_rev_drop_many)
    from Suc.hyps(1)[OF n c2 Suc.prems(3) r1(2,3)] obtain r2 ba2 where
      r2: "backtrack C D (i + 1) current tot (r1, ba1) = Inr (r2, ba2)"
        "subseq ba2 D" "sum_list ba2 = r2" by blast
    have "backtrack C D i current tot (bs, ba) = Inr (r2, ba2)"
      using False i best' r1(1) r2(1)
      by (subst backtrack.simps) (simp add: py_get_in_range)
    with r2 show ?thesis by blast
  qed
qed

lemma backtracking_optimal:
  assumes v: "valid_input C D"
  shows "\<exists>allocation. backtracking_allocation C D = Inr (allocation, max_subset_sum C D)"
proof -
  from v have C: "0 \<le> C" and pos: "list_all (\<lambda>d. 0 < d) D" by (simp_all add: valid_input_def)
  from backtrack_value[OF pos, of 0 C "[]" 0 0 "[]"] obtain r ba where
    r: "backtrack C D 0 [] 0 (0, []) = Inr (r, ba)" "0 \<le> r"
      "r = 0 \<or> r \<in> completions C D 0 0" "\<forall>x \<in> completions C D 0 0. x \<le> r" by auto
  have eq: "completions C D 0 0 = feasible_sums C D"
    by (simp add: completions_def feasible_sums_def)
  have "0 \<in> feasible_sums C D" using completions_self[of 0 C D 0] C eq by simp
  with r(3) eq have mem: "r \<in> feasible_sums C D" by auto
  have "Max (feasible_sums C D) = r"
  proof (rule Max_eqI)
    show "finite (feasible_sums C D)" by (rule finite_feasible_sums)
    show "r \<in> feasible_sums C D" by (rule mem)
    fix y assume "y \<in> feasible_sums C D"
    with r(4) eq show "y \<le> r" by simp
  qed
  with r(1) show ?thesis by (simp add: backtracking_allocation_def max_subset_sum_def)
qed

lemma backtracking_selection:
  "\<exists>allocation t. backtracking_allocation C D = Inr (allocation, t) \<and>
      subseq allocation D \<and> sum_list allocation = t"
proof -
  from backtrack_selection[of 0 D "[]" 0 "[]" 0 C] obtain r ba where
    "backtrack C D 0 [] 0 (0, []) = Inr (r, ba)" "subseq ba D" "sum_list ba = r" by auto
  then show ?thesis by (simp add: backtracking_allocation_def)
qed

lemma backtracking_negative: "C < 0 \<Longrightarrow> backtracking_allocation C D = Inr ([], 0)"
  by (simp add: backtracking_allocation_def backtrack.simps)


subsection \<open>Behaviour on a negative capacity\<close>

lemma py_for_skip: "(\<And>s x. body s x = Inr s) \<Longrightarrow> py_for xs body s = Inr s"
  by (induction xs) simp_all

lemma dynamic_negative:
  assumes "C < 0"
  shows "dynamic_allocation C D = Inl IndexError"
proof -
  let ?dp = "dp_init C (length D)"
  have row: "dp_row D C dp i = Inr dp" for dp i
    using assms by (simp add: dp_row_def)
  have fill: "dp_fill D C ?dp = Inr ?dp"
    unfolding dp_fill_def by (rule py_for_skip) (rule row)
  have "?dp ! length D = []" using assms by (simp add: dp_init_nth)
  moreover have "length ?dp = length D + 1" by (simp add: dp_init_def)
  ultimately have "dp_get ?dp (int (length D)) C = Inl IndexError"
    by (simp add: dp_get_def py_get_in_range) (simp add: py_get_def py_index_def)
  with fill show ?thesis by (simp add: dynamic_allocation_def)
qed

lemma greedy_negative:
  assumes "C < 0" "D \<noteq> []" "list_all (\<lambda>d. 0 < d) D"
  shows "greedy_allocation C D = ([C], C)"
proof -
  have "length (sorted_desc D) = length D" by (simp add: sorted_desc_def)
  with assms(2) have "sorted_desc D \<noteq> []" by (metis length_0_conv)
  then obtain d ds where dd: "sorted_desc D = d # ds" by (cases "sorted_desc D") auto
  then have "d \<in> set D" by (metis list.set_intros(1) set_rev set_sort sorted_desc_def)
  with assms(3) have "0 < d" by (simp add: list_all_iff)
  with assms(1) have "min d C = C" by simp
  then show ?thesis by (simp add: greedy_allocation_def dd)
qed


subsection \<open>Greedy against the optimum\<close>

lemma subseq_sum_le:
  "subseq S D \<Longrightarrow> list_all (\<lambda>d. 0 < d) D \<Longrightarrow> sum_list S \<le> (sum_list D :: int)"
  by (induction rule: list_emb.induct) (auto dest: sum_list_pos_nonneg)

lemma max_subset_sum_props:
  assumes v: "valid_input C D"
  shows "max_subset_sum C D \<in> feasible_sums C D"
    and "\<And>x. x \<in> feasible_sums C D \<Longrightarrow> x \<le> max_subset_sum C D"
proof -
  from v have "0 \<le> C" by (simp add: valid_input_def)
  then have "0 \<in> feasible_sums C D"
    by (auto simp: feasible_sums_def image_iff intro: exI[of _ "[]"])
  then have ne: "feasible_sums C D \<noteq> {}" by blast
  show "max_subset_sum C D \<in> feasible_sums C D"
    unfolding max_subset_sum_def by (rule Max_in[OF finite_feasible_sums ne])
  show "x \<le> max_subset_sum C D" if "x \<in> feasible_sums C D" for x
    unfolding max_subset_sum_def using that by (rule Max_ge[OF finite_feasible_sums])
qed

lemma feasible_sums_iff:
  "x \<in> feasible_sums C D \<longleftrightarrow> (\<exists>S. subseq S D \<and> sum_list S = x \<and> x \<le> C)"
  by (auto simp: feasible_sums_def)

lemma optimum_le_greedy:
  assumes v: "valid_input C D"
  shows "max_subset_sum C D \<le> min C (sum_list D)"
proof -
  from v have pos: "list_all (\<lambda>d. 0 < d) D" by (simp add: valid_input_def)
  from max_subset_sum_props(1)[OF v] obtain S where
    "subseq S D" "sum_list S = max_subset_sum C D" "max_subset_sum C D \<le> C"
    unfolding feasible_sums_iff by blast
  with subseq_sum_le[OF _ pos, of S] show ?thesis by simp
qed

lemma greedy_le_optimum_iff:
  assumes v: "valid_input C D"
  shows "min C (sum_list D) \<le> max_subset_sum C D \<longleftrightarrow> sum_list D \<le> C \<or> C \<in> feasible_sums C D"
proof
  assume le: "min C (sum_list D) \<le> max_subset_sum C D"
  show "sum_list D \<le> C \<or> C \<in> feasible_sums C D"
  proof (cases "sum_list D \<le> C")
    case False
    with le optimum_le_greedy[OF v] have "max_subset_sum C D = C" by simp
    with max_subset_sum_props(1)[OF v] show ?thesis by simp
  qed simp
next
  assume "sum_list D \<le> C \<or> C \<in> feasible_sums C D"
  then show "min C (sum_list D) \<le> max_subset_sum C D"
  proof
    assume "sum_list D \<le> C"
    then have "sum_list D \<in> feasible_sums C D" unfolding feasible_sums_iff by auto
    from max_subset_sum_props(2)[OF v this] show ?thesis by simp
  next
    assume "C \<in> feasible_sums C D"
    from max_subset_sum_props(2)[OF v this] show ?thesis by simp
  qed
qed


subsection \<open>The comparator\<close>

lemma max_scan_first:
  "\<forall>x \<in> set pre. snd x < snd best \<Longrightarrow> \<forall>x \<in> set mid. snd x \<le> snd best \<Longrightarrow>
   \<exists>pre' post. pre @ best # mid @ kvs = pre' @ max_scan kvs best # post \<and>
      (\<forall>x \<in> set pre'. snd x < snd (max_scan kvs best)) \<and>
      (\<forall>x \<in> set post. snd x \<le> snd (max_scan kvs best))"
proof (induction kvs arbitrary: pre best mid)
  case Nil
  then show ?case by auto
next
  case (Cons kv kvs)
  obtain k v where kv: "kv = (k, v)" by (cases kv)
  show ?case
  proof (cases "v > snd best")
    case True
    have "\<forall>x \<in> set (pre @ best # mid). snd x < snd (k, v)"
      using Cons.prems True by fastforce
    from Cons.IH[OF this, of "[]"] True kv show ?thesis by simp
  next
    case False
    have "\<forall>x \<in> set (mid @ [kv]). snd x \<le> snd best"
      using Cons.prems(2) False kv by auto
    from Cons.IH[OF Cons.prems(1) this] False kv show ?thesis by simp
  qed
qed

section \<open>Main results\<close>

subsection \<open>The capacity bound\<close>

text \<open>
  Claim C1. For a non-negative capacity \<open>C\<close> and positive demands \<open>D\<close>, each of the four
  allocators returns a pair whose achieved total is at most \<open>C\<close>. For
  \<open>random_allocation\<close> this holds for every generator \<open>rnd\<close>, hence for every sequence
  of draws: by \<open>randint_range\<close> and \<open>randint_onto\<close> the draws of \<open>randint a b\<close>
  are exactly the integers of \<open>[a, b]\<close>.
\<close>

theorem achieved_total_within_capacity:
  "valid_input C D \<Longrightarrow>
   snd (greedy_allocation C D) \<le> C \<and>
   (\<exists>allocation t. random_allocation rnd C D = Inr (allocation, t) \<and> t \<le> C) \<and>
   (\<exists>allocation t. dynamic_allocation C D = Inr (allocation, t) \<and> t \<le> C) \<and>
   (\<exists>allocation t. backtracking_allocation C D = Inr (allocation, t) \<and> t \<le> C)"
proof -
  assume v: "valid_input C D"
  then have C: "0 \<le> C" by (simp add: valid_input_def)
  have opt: "max_subset_sum C D \<le> C" using optimum_le_greedy[OF v] by simp
  have "snd (greedy_allocation C D) \<le> C" by (simp add: greedy_total[OF v])
  moreover have "\<exists>allocation t. random_allocation rnd C D = Inr (allocation, t) \<and> t \<le> C"
    using random_allocation_correct[of rnd C D] C by blast
  moreover have "\<exists>allocation t. dynamic_allocation C D = Inr (allocation, t) \<and> t \<le> C"
    using dynamic_allocation_correct[OF v] opt by (auto simp: knap_rev_is_max[OF v])
  moreover have "\<exists>allocation t. backtracking_allocation C D = Inr (allocation, t) \<and> t \<le> C"
    using backtracking_optimal[OF v] opt by blast
  ultimately show ?thesis by blast
qed

theorem achieved_total_within_capacity_witness:
  "valid_input 10 [4, 3, 8] \<and>
   snd (greedy_allocation 10 [4, 3, 8]) \<le> 10 \<and>
   (\<exists>allocation t. random_allocation (\<lambda>k. 7 + k) 10 [4, 3, 8] = Inr (allocation, t) \<and> t \<le> 10) \<and>
   (\<exists>allocation t. dynamic_allocation 10 [4, 3, 8] = Inr (allocation, t) \<and> t \<le> 10) \<and>
   (\<exists>allocation t. backtracking_allocation 10 [4, 3, 8] = Inr (allocation, t) \<and> t \<le> 10)"
proof -
  have v: "valid_input 10 [4, 3, 8]" by (simp add: valid_input_def)
  from v achieved_total_within_capacity[OF v, of "\<lambda>k. 7 + k"] show ?thesis by simp
qed

subsection \<open>The exact optimizers\<close>

lemma subseq_mset: "subseq xs ys \<Longrightarrow> mset xs \<subseteq># mset ys"
proof (induction rule: list_emb.induct)
  case (list_emb_Nil ys)
  then show ?case by simp
next
  case (list_emb_Cons xs ys y)
  then show ?case by (simp add: subseteq_mset_def le_SucI)
next
  case (list_emb_Cons2 x y xs ys)
  then show ?case by simp
qed

text \<open>
  Claim C3. For a non-negative capacity \<open>C\<close> and positive demands \<open>D\<close>,
  \<open>dynamic_allocation\<close> returns as total the greatest sum of a selection of whole
  demands that does not exceed \<open>C\<close>, and its allocation is such a selection (listed
  from the last selected demand to the first) whose sum is that total.
\<close>

theorem dynamic_allocation_optimal:
  "valid_input C D \<Longrightarrow>
   \<exists>allocation t. dynamic_allocation C D = Inr (allocation, t) \<and>
     t = max_subset_sum C D \<and> t \<le> C \<and>
     (\<forall>S \<in> set (subseqs D). sum_list S \<le> C \<longrightarrow> sum_list S \<le> t) \<and>
     subseq (rev allocation) D \<and> mset allocation \<subseteq># mset D \<and> sum_list allocation = t"
proof -
  assume v: "valid_input C D"
  from dynamic_allocation_correct[OF v] obtain allocation where
    a: "dynamic_allocation C D = Inr (allocation, max_subset_sum C D)"
      "sum_list allocation = max_subset_sum C D" "subseq (rev allocation) D"
    by (auto simp: knap_rev_is_max[OF v])
  have "max_subset_sum C D \<le> C" using optimum_le_greedy[OF v] by simp
  moreover have "\<forall>S \<in> set (subseqs D). sum_list S \<le> C \<longrightarrow> sum_list S \<le> max_subset_sum C D"
  proof (intro ballI impI)
    fix S assume "S \<in> set (subseqs D)" "sum_list S \<le> C"
    then have "sum_list S \<in> feasible_sums C D" unfolding feasible_sums_iff by auto
    from max_subset_sum_props(2)[OF v this] show "sum_list S \<le> max_subset_sum C D" .
  qed
  moreover have "mset allocation \<subseteq># mset D"
    using subseq_mset[OF a(3)] by simp
  ultimately show ?thesis using a by blast
qed

theorem dynamic_allocation_optimal_witness:
  "valid_input 10 [4, 3, 8] \<and>
   (\<exists>allocation t. dynamic_allocation 10 [4, 3, 8] = Inr (allocation, t) \<and>
     t = max_subset_sum 10 [4, 3, 8] \<and> t \<le> 10 \<and>
     (\<forall>S \<in> set (subseqs [4, 3, 8]). sum_list S \<le> 10 \<longrightarrow> sum_list S \<le> t) \<and>
     subseq (rev allocation) [4, 3, 8] \<and> mset allocation \<subseteq># mset [4, 3, 8] \<and>
     sum_list allocation = t)"
proof -
  have v: "valid_input 10 [4, 3, 8]" by (simp add: valid_input_def)
  from v dynamic_allocation_optimal[OF v] show ?thesis by blast
qed

text \<open>
  Claim C10. For a non-negative capacity \<open>C\<close> and positive demands \<open>D\<close>,
  \<open>backtracking_allocation\<close> returns an allocation whose sum is the returned total and
  which is a subsequence of \<open>D\<close>: whole demands, in input order.
\<close>

theorem backtracking_returns_subsequence:
  "valid_input C D \<Longrightarrow>
   \<exists>allocation t. backtracking_allocation C D = Inr (allocation, t) \<and>
     sum_list allocation = t \<and> subseq allocation D"
  using backtracking_selection[of C D] by blast

theorem backtracking_returns_subsequence_witness:
  "valid_input 10 [4, 3, 8] \<and>
   (\<exists>allocation t. backtracking_allocation 10 [4, 3, 8] = Inr (allocation, t) \<and>
     sum_list allocation = t \<and> subseq allocation [4, 3, 8])"
proof -
  have v: "valid_input 10 [4, 3, 8]" by (simp add: valid_input_def)
  from v backtracking_returns_subsequence[OF v] show ?thesis by blast
qed

text \<open>
  Claim C2. For a non-negative capacity \<open>C\<close> and positive demands \<open>D\<close>,
  \<open>dynamic_allocation\<close> and \<open>backtracking_allocation\<close> return the same total.
\<close>

theorem exact_optimizers_agree:
  "valid_input C D \<Longrightarrow>
   \<exists>a1 a2 t. dynamic_allocation C D = Inr (a1, t) \<and> backtracking_allocation C D = Inr (a2, t)"
  using dynamic_allocation_correct[of C D] backtracking_optimal[of C D]
  by (auto simp: knap_rev_is_max)

theorem exact_optimizers_agree_witness:
  "valid_input 10 [4, 3, 8] \<and>
   (\<exists>a1 a2 t. dynamic_allocation 10 [4, 3, 8] = Inr (a1, t) \<and>
      backtracking_allocation 10 [4, 3, 8] = Inr (a2, t))"
proof -
  have v: "valid_input 10 [4, 3, 8]" by (simp add: valid_input_def)
  from v exact_optimizers_agree[OF v] show ?thesis by simp
qed

subsection \<open>Greedy against dynamic programming\<close>

text \<open>
  Claim C4 says that the total of \<open>greedy_allocation\<close> never exceeds the total of
  \<open>dynamic_allocation\<close>. With capacity 10 and the single demand 20 the greedy allocator
  grants the partial amount 10, while no whole demand fits and the optimizer returns 0.
\<close>

theorem greedy_le_dynamic_counterexample:
  "valid_input 10 [20] \<and>
   greedy_allocation 10 [20] = ([10], 10) \<and>
   dynamic_allocation 10 [20] = Inr ([], 0) \<and>
   \<not> snd (greedy_allocation 10 [20]) \<le> 0"
  by code_simp

text \<open>
  Claim C4, amended. For a non-negative capacity \<open>C\<close> and positive demands \<open>D\<close> the
  inequality holds the other way round: the total of \<open>dynamic_allocation\<close> is at most the
  total of \<open>greedy_allocation\<close>. The greedy total is at most the dynamic one exactly when
  all demands fit together (\<open>sum D \<le> C\<close>) or some selection of whole demands sums to
  exactly \<open>C\<close>; the two totals are then equal.
\<close>

theorem dynamic_le_greedy:
  "valid_input C D \<Longrightarrow>
   \<exists>allocation t. dynamic_allocation C D = Inr (allocation, t) \<and>
     t \<le> snd (greedy_allocation C D) \<and>
     (snd (greedy_allocation C D) \<le> t \<longleftrightarrow> sum_list D \<le> C \<or> C \<in> feasible_sums C D)"
proof -
  assume v: "valid_input C D"
  from dynamic_allocation_correct[OF v] obtain allocation where
    "dynamic_allocation C D = Inr (allocation, max_subset_sum C D)"
    by (auto simp: knap_rev_is_max[OF v])
  with optimum_le_greedy[OF v] greedy_le_optimum_iff[OF v] show ?thesis
    by (simp add: greedy_total[OF v])
qed

theorem dynamic_le_greedy_witness:
  "valid_input 10 [20] \<and>
   (\<exists>allocation t. dynamic_allocation 10 [20] = Inr (allocation, t) \<and>
     t \<le> snd (greedy_allocation 10 [20]) \<and>
     (snd (greedy_allocation 10 [20]) \<le> t \<longleftrightarrow> sum_list [20] \<le> (10::int) \<or> 10 \<in> feasible_sums 10 [20]))"
proof -
  have v: "valid_input 10 [20]" by (simp add: valid_input_def)
  from v dynamic_le_greedy[OF v] show ?thesis by blast
qed

subsection \<open>Inputs outside the data model\<close>

text \<open>
  Claim C6 says that a negative capacity or a non-positive demand makes the core signal
  an invalid-input error and that no allocator produces a result. The allocators do not
  check their arguments: on capacity \<open>-5\<close> with demands \<open>[3]\<close>, and on capacity 5 with
  demands \<open>[0, 3]\<close>, they return results.
\<close>

theorem invalid_input_counterexample:
  "\<not> valid_input (- 5) [3] \<and>
   greedy_allocation (- 5) [3] = ([- 5], - 5) \<and>
   random_allocation (\<lambda>k. 0) (- 5) [3] = Inr ([0], 0) \<and>
   backtracking_allocation (- 5) [3] = Inr ([], 0) \<and>
   \<not> valid_input 5 [0, 3] \<and>
   greedy_allocation 5 [0, 3] = ([3, 0], 3) \<and>
   dynamic_allocation 5 [0, 3] = Inr ([3], 3) \<and>
   backtracking_allocation 5 [0, 3] = Inr ([0, 3], 3)"
  by code_simp

text \<open>
  Claim C6, amended. The allocators perform no validation and have no invalid-input
  error. For every capacity and every demand list, \<open>random_allocation\<close> and
  \<open>backtracking_allocation\<close> return a result. With a negative capacity \<open>C\<close>:
  \<open>backtracking_allocation\<close> returns \<open>([], 0)\<close>, \<open>random_allocation\<close> returns the total
  0, \<open>greedy_allocation\<close> returns \<open>([C], C)\<close> on non-empty positive demands, and
  \<open>dynamic_allocation\<close> fails with the \<^verbatim>\<open>IndexError\<close> of its read of
  \<^verbatim>\<open>dp[n][total_bandwidth]\<close>.
\<close>

theorem unvalidated_input:
  "(\<exists>allocation t. random_allocation rnd C D = Inr (allocation, t)) \<and>
   (\<exists>allocation t. backtracking_allocation C D = Inr (allocation, t)) \<and>
   (C < 0 \<longrightarrow>
      backtracking_allocation C D = Inr ([], 0) \<and>
      (\<exists>allocation. random_allocation rnd C D = Inr (allocation, 0)) \<and>
      (D \<noteq> [] \<and> list_all (\<lambda>d. 0 < d) D \<longrightarrow> greedy_allocation C D = ([C], C)) \<and>
      dynamic_allocation C D = Inl IndexError)"
proof -
  have "\<exists>allocation t. random_allocation rnd C D = Inr (allocation, t)"
    using random_allocation_correct[of rnd C D] by blast
  moreover have "\<exists>allocation t. backtracking_allocation C D = Inr (allocation, t)"
    using backtracking_selection[of C D] by blast
  moreover have "\<exists>allocation. random_allocation rnd C D = Inr (allocation, 0)" if "C < 0"
    using random_allocation_correct[of rnd C D] that by auto
  ultimately show ?thesis
    using backtracking_negative[of C D] greedy_negative[of C D] dynamic_negative[of C D]
    by blast
qed

theorem unvalidated_input_witness:
  "(\<exists>allocation t. random_allocation (\<lambda>k. k) (- 5) [3, 4] = Inr (allocation, t)) \<and>
   (\<exists>allocation t. backtracking_allocation (- 5) [3, 4] = Inr (allocation, t)) \<and>
   backtracking_allocation (- 5) [3, 4] = Inr ([], 0) \<and>
   (\<exists>allocation. random_allocation (\<lambda>k. k) (- 5) [3, 4] = Inr (allocation, 0)) \<and>
   greedy_allocation (- 5) [3, 4] = ([- 5], - 5) \<and>
   dynamic_allocation (- 5) [3, 4] = Inl IndexError"
  using unvalidated_input[of "\<lambda>k. k" "- 5" "[3, 4]"] by simp

subsection \<open>Auto-select\<close>

text \<open>
  Claim C7. For a non-negative capacity \<open>C\<close> and positive demands \<open>D\<close>, \<open>auto_select\<close>
  returns the report of the four totals in the order Greedy, Dynamic Programming,
  Backtracking, Random, and as best strategy an entry of the report whose total is
  greatest; every entry before it in that order has a strictly smaller total, so among
  equal greatest totals the first one evaluated is returned.
\<close>

theorem auto_select_first_maximal:
  "valid_input C D \<Longrightarrow>
   \<exists>best total results a_dp t_dp a_bt t_bt a_rn t_rn pre post.
     auto_select rnd C D = Inr (best, total, results) \<and>
     dynamic_allocation C D = Inr (a_dp, t_dp) \<and>
     backtracking_allocation C D = Inr (a_bt, t_bt) \<and>
     random_allocation rnd C D = Inr (a_rn, t_rn) \<and>
     results = [(''Greedy'', snd (greedy_allocation C D)), (''Dynamic Programming'', t_dp),
                (''Backtracking'', t_bt), (''Random'', t_rn)] \<and>
     results = pre @ (best, total) # post \<and>
     (\<forall>x \<in> set pre. snd x < total) \<and> (\<forall>x \<in> set post. snd x \<le> total)"
proof -
  assume v: "valid_input C D"
  from dynamic_allocation_correct[OF v] obtain a_dp t_dp where
    dp: "dynamic_allocation C D = Inr (a_dp, t_dp)" by blast
  from backtracking_selection[of C D] obtain a_bt t_bt where
    bt: "backtracking_allocation C D = Inr (a_bt, t_bt)" by blast
  from random_allocation_correct[of rnd C D] obtain a_rn t_rn where
    rn: "random_allocation rnd C D = Inr (a_rn, t_rn)" by blast
  let ?first = "(''Greedy'', snd (greedy_allocation C D))"
  let ?rest = "[(''Dynamic Programming'', t_dp), (''Backtracking'', t_bt), (''Random'', t_rn)]"
  let ?results = "?first # ?rest"
  obtain best total where m: "max_scan ?rest ?first = (best, total)"
    by (cases "max_scan ?rest ?first")
  from max_scan_first[of "[]" ?first "[]" ?rest] m obtain pre post where
    split: "?results = pre @ (best, total) # post"
      "\<forall>x \<in> set pre. snd x < total" "\<forall>x \<in> set post. snd x \<le> total"
    by auto
  have "(best, total) \<in> set ?results" unfolding split(1) by simp
  moreover have "distinct (map fst ?results)" by simp
  ultimately have "map_of ?results best = Some total" by (rule map_of_is_SomeI[rotated])
  then have get: "dict_get ?results best = Inr total" by (simp add: dict_get_def)
  have key: "py_max_key ?results = Inr best" using m by (simp add: py_max_key_def)
  have "auto_select rnd C D = Inr (best, total, ?results)"
    unfolding auto_select_def Let_def dp bt rn using key get by simp
  with dp bt rn split show ?thesis by blast
qed

theorem auto_select_first_maximal_witness:
  "valid_input 10 [20] \<and>
   (\<exists>best total results a_dp t_dp a_bt t_bt a_rn t_rn pre post.
     auto_select (\<lambda>k. 10) 10 [20] = Inr (best, total, results) \<and>
     dynamic_allocation 10 [20] = Inr (a_dp, t_dp) \<and>
     backtracking_allocation 10 [20] = Inr (a_bt, t_bt) \<and>
     random_allocation (\<lambda>k. 10) 10 [20] = Inr (a_rn, t_rn) \<and>
     results = [(''Greedy'', snd (greedy_allocation 10 [20])), (''Dynamic Programming'', t_dp),
                (''Backtracking'', t_bt), (''Random'', t_rn)] \<and>
     results = pre @ (best, total) # post \<and>
     (\<forall>x \<in> set pre. snd x < total) \<and> (\<forall>x \<in> set post. snd x \<le> total))"
proof -
  have v: "valid_input 10 [20]" by (simp add: valid_input_def)
  from v auto_select_first_maximal[OF v, of "\<lambda>k. 10"] show ?thesis by blast
qed

text \<open>A tie between Greedy and Random, resolved for Greedy.\<close>

lemma auto_select_tie_example:
  "auto_select (\<lambda>k. 10) 10 [20] =
     Inr (''Greedy'', 10, [(''Greedy'', 10), (''Dynamic Programming'', 0),
                           (''Backtracking'', 0), (''Random'', 10)])"
  by code_simp

subsection \<open>Concrete scenario and the empty demand list\<close>

text \<open>
  Claim C5. With capacity 10 and the single demand 20, \<open>greedy_allocation\<close> grants the
  partial amount: allocation \<open>[10]\<close>, total 10; \<open>dynamic_allocation\<close> and
  \<open>backtracking_allocation\<close> select nothing: allocation \<open>[]\<close>, total 0.
\<close>

theorem scenario_10_20:
  "greedy_allocation 10 [20] = ([10], 10) \<and>
   dynamic_allocation 10 [20] = Inr ([], 0) \<and>
   backtracking_allocation 10 [20] = Inr ([], 0)"
  by code_simp

text \<open>
  Claim C8. On the empty demand list and a non-negative capacity each of the four
  allocators returns the empty allocation and the total 0 (the random one for every
  generator).
\<close>

theorem empty_demands:
  "0 \<le> C \<Longrightarrow>
   greedy_allocation C [] = ([], 0) \<and>
   random_allocation rnd C [] = Inr ([], 0) \<and>
   dynamic_allocation C [] = Inr ([], 0) \<and>
   backtracking_allocation C [] = Inr ([], 0)"
  by (simp add: greedy_allocation_def sorted_desc_def random_allocation_def
      backtracking_allocation_def backtrack.simps dynamic_allocation_def dp_fill_def
      dp_init_def dp_get_def py_get_def py_index_def)

theorem empty_demands_witness:
  "(0::int) \<le> 7 \<and>
   greedy_allocation 7 [] = ([], 0) \<and>
   random_allocation (\<lambda>k. k) 7 [] = Inr ([], 0) \<and>
   dynamic_allocation 7 [] = Inr ([], 0) \<and>
   backtracking_allocation 7 [] = Inr ([], 0)"
proof -
  have h: "(0::int) \<le> 7" by simp
  from h empty_demands[OF h, of "\<lambda>k. k"] show ?thesis by simp
qed

end
